theory Spec2Isabelle
  imports Main
begin

section \<open>Data model\<close>

text \<open>
  The class \<open>PrimeMultiset\<close> of \<open>prime_multiset.py\<close> has a single attribute,
  \<open>value\<close>, an unbounded Python integer. Instances are mutable objects that the
  in-place operators and the modifying methods update and hand back, so objects live in
  an explicit store: a reference is an index into the list of all objects allocated so
  far, and the constructor appends to that list. A Python name always refers to a live
  object, hence the operations are only ever called with references below the length
  of the store.

  The exceptions the class can raise are \<open>KeyError\<close> (raised by \<open>remove\<close>, with
  the element as payload) and the \<open>ZeroDivisionError\<close> of the integer operators
  \<open>//\<close>, \<open>%\<close> and \<open>divmod\<close>. A call returns the store it leaves behind together
  with either the exception raised or the value returned.
\<close>

datatype py_error = KeyError int | ZeroDivisionError

record PrimeMultiset =
  "value" :: int

type_synonym ref = nat

type_synonym heap = "PrimeMultiset list"

subsection \<open>Python's integer operators\<close>

text \<open>
  Python's \<open>//\<close> and \<open>%\<close> round towards minus infinity, as \<open>div\<close> and \<open>mod\<close> on
  \<open>int\<close> do; unlike them they raise on a zero divisor. \<open>math.gcd\<close> is the
  non-negative greatest common divisor, with \<open>math.gcd(0, 0) = 0\<close>, as \<open>gcd\<close> on
  \<open>int\<close> is.
\<close>

definition py_floordiv :: "int \<Rightarrow> int \<Rightarrow> py_error + int" where
  "py_floordiv a b = (if b = 0 then Inl ZeroDivisionError else Inr (a div b))"

definition py_mod :: "int \<Rightarrow> int \<Rightarrow> py_error + int" where
  "py_mod a b = (if b = 0 then Inl ZeroDivisionError else Inr (a mod b))"

definition py_divmod :: "int \<Rightarrow> int \<Rightarrow> py_error + (int \<times> int)" where
  "py_divmod a b = (if b = 0 then Inl ZeroDivisionError else Inr (a div b, a mod b))"

subsection \<open>Construction\<close>

text \<open>
  \<open>__init__\<close>: \<open>self.value = functools.reduce(operator.mul, sequence, initial_value)\<close>,
  a left fold of the multiplication over the sequence, started at the initial value.
  The new object gets the next free reference.
\<close>

definition new :: "heap \<Rightarrow> int list \<Rightarrow> int \<Rightarrow> heap \<times> ref" where
  "new h sequence initial_value =
     (h @ [\<lparr>value = foldl (\<lambda>x y. x * y) initial_value sequence\<rparr>], length h)"

subsection \<open>Helper function\<close>

text \<open>\<open>__lcm\<close>: \<open>lhs * rhs // math.gcd(lhs, rhs)\<close>.\<close>

definition pm_lcm :: "int \<Rightarrow> int \<Rightarrow> py_error + int" where
  "pm_lcm lhs rhs = py_floordiv (lhs * rhs) (gcd lhs rhs)"

subsection \<open>Usual multiset operations\<close>

text \<open>
  The operator methods \<open>__and__\<close>, \<open>__iand__\<close>, \<open>__or__\<close>, \<open>__ior__\<close>,
  \<open>__add__\<close>, \<open>__iadd__\<close>, \<open>__sub__\<close> and \<open>__isub__\<close>. The plain operators
  build a new object with the constructor; the in-place ones assign to \<open>self.value\<close>
  and return \<open>self\<close>.
\<close>

definition pm_and :: "heap \<Rightarrow> ref \<Rightarrow> ref \<Rightarrow> heap \<times> (py_error + ref)" where
  "pm_and h self other =
     (let (h', r) = new h [] (gcd (value (h ! self)) (value (h ! other)))
      in (h', Inr r))"

definition pm_iand :: "heap \<Rightarrow> ref \<Rightarrow> ref \<Rightarrow> heap \<times> (py_error + ref)" where
  "pm_iand h self other =
     (h[self := (h ! self)\<lparr>value := gcd (value (h ! self)) (value (h ! other))\<rparr>],
      Inr self)"

definition pm_or :: "heap \<Rightarrow> ref \<Rightarrow> ref \<Rightarrow> heap \<times> (py_error + ref)" where
  "pm_or h self other =
     (case pm_lcm (value (h ! self)) (value (h ! other)) of
        Inl e \<Rightarrow> (h, Inl e)
      | Inr v \<Rightarrow> (let (h', r) = new h [] v in (h', Inr r)))"

definition pm_ior :: "heap \<Rightarrow> ref \<Rightarrow> ref \<Rightarrow> heap \<times> (py_error + ref)" where
  "pm_ior h self other =
     (case pm_lcm (value (h ! self)) (value (h ! other)) of
        Inl e \<Rightarrow> (h, Inl e)
      | Inr v \<Rightarrow> (h[self := (h ! self)\<lparr>value := v\<rparr>], Inr self))"

definition pm_add :: "heap \<Rightarrow> ref \<Rightarrow> ref \<Rightarrow> heap \<times> (py_error + ref)" where
  "pm_add h self other =
     (let (h', r) = new h [] (value (h ! self) * value (h ! other))
      in (h', Inr r))"

definition pm_iadd :: "heap \<Rightarrow> ref \<Rightarrow> ref \<Rightarrow> heap \<times> (py_error + ref)" where
  "pm_iadd h self other =
     (h[self := (h ! self)\<lparr>value := value (h ! self) * value (h ! other)\<rparr>],
      Inr self)"

text \<open>
  \<open>__sub__\<close>: \<open>PrimeMultiset(initial_value=self.value // (self & other).value)\<close>.
  \<open>self.value\<close> is read first, then \<open>self & other\<close> allocates the intersection,
  then the division runs, and at last the result is allocated.
\<close>

definition pm_sub :: "heap \<Rightarrow> ref \<Rightarrow> ref \<Rightarrow> heap \<times> (py_error + ref)" where
  "pm_sub h self other =
     (case pm_and h self other of
        (h1, Inl e) \<Rightarrow> (h1, Inl e)
      | (h1, Inr t) \<Rightarrow>
          (case py_floordiv (value (h ! self)) (value (h1 ! t)) of
             Inl e \<Rightarrow> (h1, Inl e)
           | Inr q \<Rightarrow> (let (h2, r) = new h1 [] q in (h2, Inr r))))"

text \<open>\<open>__isub__\<close>: \<open>self.value //= (self & other).value\<close>, then \<open>return self\<close>.\<close>

definition pm_isub :: "heap \<Rightarrow> ref \<Rightarrow> ref \<Rightarrow> heap \<times> (py_error + ref)" where
  "pm_isub h self other =
     (case pm_and h self other of
        (h1, Inl e) \<Rightarrow> (h1, Inl e)
      | (h1, Inr t) \<Rightarrow>
          (case py_floordiv (value (h ! self)) (value (h1 ! t)) of
             Inl e \<Rightarrow> (h1, Inl e)
           | Inr q \<Rightarrow> (h1[self := (h1 ! self)\<lparr>value := q\<rparr>], Inr self)))"

subsection \<open>Multiset equality operations\<close>

definition pm_eq :: "heap \<Rightarrow> ref \<Rightarrow> ref \<Rightarrow> bool" where
  "pm_eq h self other = (value (h ! self) = value (h ! other))"

definition pm_ne :: "heap \<Rightarrow> ref \<Rightarrow> ref \<Rightarrow> bool" where
  "pm_ne h self other = (value (h ! self) \<noteq> value (h ! other))"

subsection \<open>Multiset inclusion operations\<close>

text \<open>
  \<open>__le__\<close> is \<open>other.value % self.value == 0\<close> and \<open>__ge__\<close> is
  \<open>self.value % other.value == 0\<close>; \<open>__lt__\<close> is \<open>self <= other and self != other\<close>
  and \<open>__gt__\<close> is \<open>self >= other and self != other\<close>, where \<open>and\<close> evaluates its
  right operand only when the left one is true. None of them changes the store.
\<close>

definition pm_le :: "heap \<Rightarrow> ref \<Rightarrow> ref \<Rightarrow> py_error + bool" where
  "pm_le h self other =
     (case py_mod (value (h ! other)) (value (h ! self)) of
        Inl e \<Rightarrow> Inl e
      | Inr r \<Rightarrow> Inr (r = 0))"

definition pm_ge :: "heap \<Rightarrow> ref \<Rightarrow> ref \<Rightarrow> py_error + bool" where
  "pm_ge h self other =
     (case py_mod (value (h ! self)) (value (h ! other)) of
        Inl e \<Rightarrow> Inl e
      | Inr r \<Rightarrow> Inr (r = 0))"

definition pm_lt :: "heap \<Rightarrow> ref \<Rightarrow> ref \<Rightarrow> py_error + bool" where
  "pm_lt h self other =
     (case pm_le h self other of
        Inl e \<Rightarrow> Inl e
      | Inr c \<Rightarrow> Inr (if c then pm_ne h self other else c))"

definition pm_gt :: "heap \<Rightarrow> ref \<Rightarrow> ref \<Rightarrow> py_error + bool" where
  "pm_gt h self other =
     (case pm_ge h self other of
        Inl e \<Rightarrow> Inl e
      | Inr c \<Rightarrow> Inr (if c then pm_ne h self other else c))"

subsection \<open>Modifying operations\<close>

definition add :: "heap \<Rightarrow> ref \<Rightarrow> int \<Rightarrow> heap \<times> (py_error + unit)" where
  "add h self element =
     (h[self := (h ! self)\<lparr>value := value (h ! self) * element\<rparr>], Inr ())"

text \<open>
  \<open>remove\<close>: \<open>quotient, remainder = divmod(self.value, element)\<close>; a non-zero
  remainder raises \<open>KeyError(element)\<close> before the assignment to \<open>self.value\<close>.
\<close>

definition remove :: "heap \<Rightarrow> ref \<Rightarrow> int \<Rightarrow> heap \<times> (py_error + unit)" where
  "remove h self element =
     (case py_divmod (value (h ! self)) element of
        Inl e \<Rightarrow> (h, Inl e)
      | Inr (quot, remainder) \<Rightarrow>
          if remainder \<noteq> 0 then (h, Inl (KeyError element))
          else (h[self := (h ! self)\<lparr>value := quot\<rparr>], Inr ()))"

definition discard :: "heap \<Rightarrow> ref \<Rightarrow> int \<Rightarrow> heap \<times> (py_error + unit)" where
  "discard h self element =
     (case py_divmod (value (h ! self)) element of
        Inl e \<Rightarrow> (h, Inl e)
      | Inr (quot, remainder) \<Rightarrow>
          if remainder = 0 then (h[self := (h ! self)\<lparr>value := quot\<rparr>], Inr ())
          else (h, Inr ()))"

definition clear :: "heap \<Rightarrow> ref \<Rightarrow> heap \<times> (py_error + unit)" where
  "clear h self = (h[self := (h ! self)\<lparr>value := 1\<rparr>], Inr ())"

subsection \<open>Non-modifying operations\<close>

definition is_empty :: "heap \<Rightarrow> ref \<Rightarrow> bool" where
  "is_empty h self = (value (h ! self) = 1)"

definition contains :: "heap \<Rightarrow> ref \<Rightarrow> int \<Rightarrow> py_error + bool" where
  "contains h self element =
     (case py_mod (value (h ! self)) element of
        Inl e \<Rightarrow> Inl e
      | Inr r \<Rightarrow> Inr (r = 0))"

subsection \<open>The expressions of the spec's testable properties\<close>

text \<open>
  The sum/difference inverse property is the Python expression
  \<open>(P(a) + P(b)) - P(b) == P(a)\<close>, with \<open>P(xs)\<close> the call \<open>PrimeMultiset(xs)\<close>
  (the initial value defaulted to 1). Its operands are evaluated from left to right,
  each call of the constructor allocating an object of its own.
\<close>

definition sum_difference_inverse :: "heap \<Rightarrow> int list \<Rightarrow> int list \<Rightarrow> py_error + bool" where
  "sum_difference_inverse h a b =
     (let (h1, pa) = new h a 1;
          (h2, pb) = new h1 b 1
      in case pm_add h2 pa pb of
           (h3, Inl e) \<Rightarrow> Inl e
         | (h3, Inr s) \<Rightarrow>
             (let (h4, pb') = new h3 b 1
              in case pm_sub h4 s pb' of
                   (h5, Inl e) \<Rightarrow> Inl e
                 | (h5, Inr d) \<Rightarrow>
                     (let (h6, pa') = new h5 a 1 in Inr (pm_eq h6 d pa'))))"

subsection \<open>Observing the result of an operator\<close>

text \<open>
  What a caller sees of the object an operator returned: its \<open>value\<close> attribute, or
  the exception when the operator raised one.
\<close>

definition returned_value :: "heap \<times> (py_error + ref) \<Rightarrow> py_error + int" where
  "returned_value res =
     (case res of
        (h', Inl e) \<Rightarrow> Inl e
      | (h', Inr r) \<Rightarrow> Inr (value (h' ! r)))"

section \<open>Notions of the specification\<close>

text \<open>
  The data-model invariant of the specification: the \<open>value\<close> of every object is an
  integer not below 1.
\<close>

definition invariant :: "heap \<Rightarrow> bool" where
  "invariant h = (\<forall>m \<in> set h. 1 \<le> value m)"

text \<open>
  The code never factorises a value; the specification reads a value as a multiset of
  primes through the multiplicity of a prime \<open>p\<close>, the exponent of \<open>p\<close> in the
  factorisation of the value. Both notions are defined here for the positive integers,
  by trial division, so that they can be evaluated.
\<close>

definition is_prime :: "int \<Rightarrow> bool" where
  "is_prime p = (2 \<le> p \<and> (\<forall>d \<in> set [2..p - 1]. \<not> d dvd p))"

function multiplicity :: "int \<Rightarrow> int \<Rightarrow> nat" where
  "multiplicity p n =
     (if 2 \<le> p \<and> 1 \<le> n \<and> p dvd n then Suc (multiplicity p (n div p)) else 0)"
  by pat_completeness auto
termination
proof (relation "measure (\<lambda>(p, n). nat n)")
  show "wf (measure (\<lambda>(p, n). nat n))" by simp
next
  fix p n :: int
  assume a: "2 \<le> p \<and> 1 \<le> n \<and> p dvd n"
  then have "n div p < n"
    by (simp add: int_div_less_self)
  moreover have "1 \<le> n" using a by simp
  ultimately show "((p, n div p), (p, n)) \<in> measure (\<lambda>(p, n). nat n)"
    by simp
qed

declare multiplicity.simps [simp del]

section \<open>Arithmetic of the encoding\<close>

lemma foldl_mult_prod_list:
  fixes i :: int
  shows "foldl (\<lambda>x y. x * y) i s = i * prod_list s"
  by (induction s arbitrary: i) (simp_all add: mult.assoc)

lemma prod_list_ge_1:
  fixes s :: "int list"
  assumes "\<forall>x \<in> set s. 1 \<le> x"
  shows "1 \<le> prod_list s"
  using assms
proof (induction s)
  case Nil
  then show ?case by simp
next
  case (Cons x s)
  then have "1 \<le> x" and "1 \<le> prod_list s" by simp_all
  then have "1 * 1 \<le> x * prod_list s" by (intro mult_mono) simp_all
  then show ?case by simp
qed

lemma prod_list_gt_1:
  fixes s :: "int list"
  assumes "s \<noteq> []" "\<forall>x \<in> set s. 1 < x"
  shows "1 < prod_list s"
proof (cases s)
  case Nil
  with assms(1) show ?thesis by simp
next
  case (Cons x t)
  have "\<forall>y \<in> set t. 1 \<le> y" using assms(2) Cons by auto
  then have t: "1 \<le> prod_list t" by (rule prod_list_ge_1)
  have x: "1 < x" using assms(2) Cons by simp
  have "1 * 1 < x * prod_list t"
    using x t by (intro mult_less_le_imp_less) simp_all
  then show ?thesis using Cons by simp
qed

lemma mult_ge_1:
  fixes a b :: int
  assumes "1 \<le> a" "1 \<le> b"
  shows "1 \<le> a * b"
proof -
  have "1 * 1 \<le> a * b" using assms by (intro mult_mono) simp_all
  then show ?thesis by simp
qed

lemma exact_quotient_ge_1:
  fixes p n :: int
  assumes "1 \<le> p" "1 \<le> n" "p dvd n"
  shows "1 \<le> n div p"
proof -
  from assms(3) obtain m where m: "n = p * m" by (auto simp: dvd_def)
  have "0 < p * m" using assms(2) m by simp
  moreover have "0 < p" using assms(1) by simp
  ultimately have "0 < m" by (rule zero_less_mult_pos)
  moreover have "n div p = m" using m \<open>0 < p\<close> by simp
  ultimately show ?thesis by simp
qed

lemma gcd_ge_1:
  fixes a b :: int
  assumes "1 \<le> a"
  shows "1 \<le> gcd a b"
proof -
  have "gcd a b \<noteq> 0" using assms by simp
  moreover have "0 \<le> gcd a b" by simp
  ultimately show ?thesis by linarith
qed

lemma div_gcd_ge_1:
  fixes a b :: int
  assumes "1 \<le> a"
  shows "1 \<le> a div gcd a b"
  using gcd_ge_1 [OF assms] assms by (intro exact_quotient_ge_1) simp_all

lemma lcm_formula:
  fixes a b :: int
  assumes "1 \<le> a" "1 \<le> b"
  shows "a * b div gcd a b = lcm a b"
proof -
  have "0 \<le> a * b" using assms by simp
  moreover have "0 < gcd a b" using gcd_ge_1 [OF assms(1), of b] by linarith
  ultimately have "0 \<le> a * b div gcd a b" by (simp add: pos_imp_zdiv_nonneg_iff)
  then show ?thesis by (simp add: lcm_gcd)
qed

lemma lcm_ge_1:
  fixes a b :: int
  assumes "1 \<le> a" "1 \<le> b"
  shows "1 \<le> lcm a b"
proof -
  have "lcm a b \<noteq> 0" using assms by (simp add: lcm_eq_0_iff)
  moreover have "0 \<le> lcm a b" by simp
  ultimately show ?thesis by linarith
qed

lemma sum_then_difference:
  fixes a b :: int
  assumes "1 \<le> b"
  shows "a * b div gcd (a * b) b = a"
proof -
  have "gcd (a * b) b = b" using assms by simp
  then show ?thesis using assms by simp
qed

subsection \<open>Multiplicities\<close>

lemma power_dvd_iff_le_multiplicity:
  assumes "2 \<le> p" "1 \<le> n"
  shows "p ^ k dvd n \<longleftrightarrow> k \<le> multiplicity p n"
  using assms
proof (induction k arbitrary: n)
  case 0
  then show ?case by simp
next
  case (Suc k)
  show ?case
  proof (cases "p dvd n")
    case True
    then obtain m where m: "n = p * m" by (auto simp: dvd_def)
    have p0: "p \<noteq> 0" and p1: "1 \<le> p" using Suc.prems by simp_all
    have m1: "1 \<le> n div p" using exact_quotient_ge_1 [OF p1 Suc.prems(2) True] .
    have "p ^ Suc k dvd n \<longleftrightarrow> p ^ k dvd n div p"
      using p0 by (simp add: m)
    also have "\<dots> \<longleftrightarrow> k \<le> multiplicity p (n div p)"
      using Suc.IH [OF Suc.prems(1) m1] .
    also have "\<dots> \<longleftrightarrow> Suc k \<le> multiplicity p n"
      using Suc.prems True by (subst (2) multiplicity.simps) simp
    finally show ?thesis .
  next
    case False
    then have "\<not> p ^ Suc k dvd n"
      by (metis dvd_mult_left power_Suc)
    moreover have "multiplicity p n = 0"
      using False by (subst multiplicity.simps) simp
    ultimately show ?thesis by simp
  qed
qed

lemma prime_dvd_mult:
  assumes "is_prime p" "p dvd a * b"
  shows "p dvd a \<or> p dvd b"
proof (cases "p dvd a")
  case True
  then show ?thesis by simp
next
  case False
  let ?g = "gcd p a"
  have p2: "2 \<le> p" using assms(1) by (simp add: is_prime_def)
  have g_dvd: "?g dvd p" by simp
  have g_pos: "0 < ?g" using p2 by (simp add: gcd_pos_int)
  have g_le: "?g \<le> p" using g_dvd p2 by (simp add: zdvd_imp_le)
  have g_ne: "?g \<noteq> p" using False by (metis gcd_dvd2)
  have "\<not> (2 \<le> ?g \<and> ?g \<le> p - 1)"
    using assms(1) g_dvd by (auto simp: is_prime_def)
  with g_pos g_le g_ne have "?g = 1" by linarith
  then have "coprime p a" by (simp add: coprime_iff_gcd_eq_1)
  with assms(2) have "p dvd b"
    by (simp add: coprime_dvd_mult_right_iff)
  then show ?thesis by simp
qed

lemma nat_eq_by_le:
  fixes x y :: nat
  assumes "\<And>k. k \<le> x \<longleftrightarrow> k \<le> y"
  shows "x = y"
  by (meson assms order_antisym order_refl)

lemma multiplicity_gcd:
  assumes "2 \<le> p" "1 \<le> a" "1 \<le> b"
  shows "multiplicity p (gcd a b) = min (multiplicity p a) (multiplicity p b)"
proof (rule nat_eq_by_le)
  fix k
  have g: "1 \<le> gcd a b" using assms(2) by (rule gcd_ge_1)
  have "k \<le> multiplicity p (gcd a b) \<longleftrightarrow> p ^ k dvd gcd a b"
    using power_dvd_iff_le_multiplicity [OF assms(1) g] by simp
  also have "\<dots> \<longleftrightarrow> p ^ k dvd a \<and> p ^ k dvd b" by simp
  also have "\<dots> \<longleftrightarrow> k \<le> multiplicity p a \<and> k \<le> multiplicity p b"
    using power_dvd_iff_le_multiplicity [OF assms(1) assms(2)]
      power_dvd_iff_le_multiplicity [OF assms(1) assms(3)] by simp
  also have "\<dots> \<longleftrightarrow> k \<le> min (multiplicity p a) (multiplicity p b)" by simp
  finally show "k \<le> multiplicity p (gcd a b) \<longleftrightarrow> k \<le> min (multiplicity p a) (multiplicity p b)" .
qed

lemma multiplicity_decompose:
  assumes "2 \<le> p" "1 \<le> n"
  shows "\<exists>m. n = p ^ multiplicity p n * m \<and> 1 \<le> m \<and> \<not> p dvd m"
proof -
  define k where "k = multiplicity p n"
  have "p ^ k dvd n"
    using power_dvd_iff_le_multiplicity [OF assms] by (simp add: k_def)
  then obtain m where m: "n = p ^ k * m" by (auto simp: dvd_def)
  have pk: "0 < p ^ k" using assms(1) by simp
  have "0 < p ^ k * m" using assms(2) m by simp
  then have m1: "0 < m" using pk by (rule zero_less_mult_pos)
  have "\<not> p dvd m"
  proof
    assume "p dvd m"
    then obtain c where "m = p * c" by (auto simp: dvd_def)
    then have "n = p ^ Suc k * c" using m by (simp add: mult_ac)
    then have "p ^ Suc k dvd n" by (metis dvd_triv_left)
    then have "Suc k \<le> k"
      using power_dvd_iff_le_multiplicity [OF assms, of "Suc k"] unfolding k_def by blast
    then show False by simp
  qed
  with m m1 show ?thesis by (auto simp: k_def)
qed

lemma multiplicity_power_mult:
  assumes "2 \<le> p" "1 \<le> m" "\<not> p dvd m"
  shows "multiplicity p (p ^ k * m) = k"
proof (induction k)
  case 0
  then show ?case using assms(3) by (subst multiplicity.simps) simp
next
  case (Suc k)
  have p0: "p \<noteq> 0" using assms(1) by simp
  have pos: "1 \<le> p ^ Suc k * m"
  proof -
    have "0 < p ^ Suc k" using assms(1) by simp
    moreover have "0 < m" using assms(2) by simp
    ultimately have "0 < p ^ Suc k * m" by (rule mult_pos_pos)
    then show ?thesis by simp
  qed
  have dv: "p dvd p ^ Suc k * m" by simp
  have q: "p ^ Suc k * m div p = p ^ k * m" using p0 by (simp add: mult.assoc)
  have "multiplicity p (p ^ Suc k * m) = Suc (multiplicity p (p ^ Suc k * m div p))"
    using assms(1) pos dv by (subst multiplicity.simps) simp
  then show ?case using q Suc.IH by simp
qed

lemma multiplicity_mult:
  assumes "is_prime p" "1 \<le> a" "1 \<le> b"
  shows "multiplicity p (a * b) = multiplicity p a + multiplicity p b"
proof -
  have p2: "2 \<le> p" using assms(1) by (simp add: is_prime_def)
  obtain a' where a': "a = p ^ multiplicity p a * a'" "1 \<le> a'" "\<not> p dvd a'"
    using multiplicity_decompose [OF p2 assms(2)] by blast
  obtain b' where b': "b = p ^ multiplicity p b * b'" "1 \<le> b'" "\<not> p dvd b'"
    using multiplicity_decompose [OF p2 assms(3)] by blast
  have nd: "\<not> p dvd a' * b'"
    using prime_dvd_mult [OF assms(1)] a'(3) b'(3) by blast
  have pos: "1 \<le> a' * b'" using a'(2) b'(2) by (rule mult_ge_1)
  have "a * b = p ^ (multiplicity p a + multiplicity p b) * (a' * b')"
    by (subst a'(1), subst b'(1)) (simp add: power_add mult_ac)
  then show ?thesis
    using multiplicity_power_mult [OF p2 pos nd] by simp
qed

lemma multiplicity_difference:
  assumes "is_prime p" "1 \<le> a" "1 \<le> b"
  shows "multiplicity p (a div gcd a b) = multiplicity p a - multiplicity p b"
proof -
  have p2: "2 \<le> p" using assms(1) by (simp add: is_prime_def)
  have g: "1 \<le> gcd a b" using assms(2) by (rule gcd_ge_1)
  have q: "1 \<le> a div gcd a b" using assms(2) by (rule div_gcd_ge_1)
  have "a = gcd a b * (a div gcd a b)" by simp
  then have "multiplicity p a = multiplicity p (gcd a b * (a div gcd a b))" by simp
  also have "\<dots> = multiplicity p (gcd a b) + multiplicity p (a div gcd a b)"
    using multiplicity_mult [OF assms(1) g q] .
  finally have "multiplicity p a =
      min (multiplicity p a) (multiplicity p b) + multiplicity p (a div gcd a b)"
    using multiplicity_gcd [OF p2 assms(2) assms(3)] by simp
  then show ?thesis by linarith
qed

section \<open>What each operation computes\<close>

lemma value_update_eq:
  fixes m :: PrimeMultiset
  shows "m\<lparr>value := x\<rparr> = \<lparr>value = x\<rparr>"
  by (cases m) simp

lemma new_eq:
  "new h s i = (h @ [\<lparr>value = i * prod_list s\<rparr>], length h)"
  by (simp add: new_def foldl_mult_prod_list)

lemma pm_and_eq:
  "pm_and h self other =
     (h @ [\<lparr>value = gcd (value (h ! self)) (value (h ! other))\<rparr>], Inr (length h))"
  by (simp add: pm_and_def new_eq)

lemma pm_add_eq:
  "pm_add h self other =
     (h @ [\<lparr>value = value (h ! self) * value (h ! other)\<rparr>], Inr (length h))"
  by (simp add: pm_add_def new_eq)

lemma pm_or_eq:
  assumes "gcd (value (h ! self)) (value (h ! other)) \<noteq> 0"
  shows "pm_or h self other =
     (h @ [\<lparr>value = value (h ! self) * value (h ! other)
              div gcd (value (h ! self)) (value (h ! other))\<rparr>], Inr (length h))"
  using assms by (simp add: pm_or_def pm_lcm_def py_floordiv_def new_eq)

lemma pm_sub_eq:
  assumes "gcd (value (h ! self)) (value (h ! other)) \<noteq> 0"
  shows "pm_sub h self other =
     (h @ [\<lparr>value = gcd (value (h ! self)) (value (h ! other))\<rparr>,
           \<lparr>value = value (h ! self) div gcd (value (h ! self)) (value (h ! other))\<rparr>],
      Inr (Suc (length h)))"
  using assms by (simp add: pm_sub_def pm_and_eq py_floordiv_def new_eq)

lemma pm_iand_eq:
  "pm_iand h self other =
     (h[self := \<lparr>value = gcd (value (h ! self)) (value (h ! other))\<rparr>], Inr self)"
  by (simp add: pm_iand_def value_update_eq)

lemma pm_iadd_eq:
  "pm_iadd h self other =
     (h[self := \<lparr>value = value (h ! self) * value (h ! other)\<rparr>], Inr self)"
  by (simp add: pm_iadd_def value_update_eq)

lemma pm_ior_eq:
  assumes "gcd (value (h ! self)) (value (h ! other)) \<noteq> 0"
  shows "pm_ior h self other =
     (h[self := \<lparr>value = value (h ! self) * value (h ! other)
                  div gcd (value (h ! self)) (value (h ! other))\<rparr>], Inr self)"
  using assms by (simp add: pm_ior_def pm_lcm_def py_floordiv_def value_update_eq)

lemma pm_isub_eq:
  assumes "gcd (value (h ! self)) (value (h ! other)) \<noteq> 0"
  shows "pm_isub h self other =
     ((h @ [\<lparr>value = gcd (value (h ! self)) (value (h ! other))\<rparr>])
        [self := \<lparr>value = value (h ! self) div gcd (value (h ! self)) (value (h ! other))\<rparr>],
      Inr self)"
  using assms by (simp add: pm_isub_def pm_and_eq py_floordiv_def value_update_eq)

lemma remove_eq:
  assumes "e \<noteq> 0"
  shows "remove h self e =
     (if e dvd value (h ! self) then (h[self := \<lparr>value = value (h ! self) div e\<rparr>], Inr ())
      else (h, Inl (KeyError e)))"
  using assms by (simp add: remove_def py_divmod_def dvd_eq_mod_eq_0 value_update_eq)

lemma discard_eq:
  assumes "e \<noteq> 0"
  shows "discard h self e =
     (if e dvd value (h ! self) then (h[self := \<lparr>value = value (h ! self) div e\<rparr>], Inr ())
      else (h, Inr ()))"
  using assms by (simp add: discard_def py_divmod_def dvd_eq_mod_eq_0 value_update_eq)

lemma gcd_values_nonzero:
  fixes a b :: int
  assumes "1 \<le> a"
  shows "gcd a b \<noteq> 0"
  using gcd_ge_1 [OF assms, of b] by linarith

section \<open>Difference\<close>

text \<open>
  Claim C1. For multisets \<open>a\<close> and \<open>b\<close> with values at least 1, \<open>a - b\<close> returns a
  multiset whose value is \<open>a.value\<close> divided by \<open>gcd(a.value, b.value)\<close>; the division
  leaves no remainder; and for every prime \<open>p\<close> the multiplicity of \<open>p\<close> in the result
  is the maximum of 0 and the multiplicity in \<open>a\<close> minus the multiplicity in \<open>b\<close>,
  also where \<open>b\<close> holds more copies of \<open>p\<close> than \<open>a\<close>.
\<close>

theorem difference_saturating:
  fixes h :: heap and self other :: ref
  defines "a \<equiv> value (h ! self)" and "b \<equiv> value (h ! other)"
  assumes "self < length h" "other < length h" "1 \<le> a" "1 \<le> b"
  shows "(case pm_sub h self other of
            (h', Inr r) \<Rightarrow>
              value (h' ! r) = a div gcd a b \<and>
              (\<forall>p. is_prime p \<longrightarrow>
                 int (multiplicity p (value (h' ! r))) =
                 max 0 (int (multiplicity p a) - int (multiplicity p b)))
          | (h', Inl e) \<Rightarrow> False) \<and>
         a mod gcd a b = 0"
proof -
  have g: "gcd a b \<noteq> 0" using \<open>1 \<le> a\<close> by (rule gcd_values_nonzero)
  have m: "int (multiplicity p (a div gcd a b)) =
      max 0 (int (multiplicity p a) - int (multiplicity p b))" if "is_prime p" for p
    using multiplicity_difference [OF that \<open>1 \<le> a\<close> \<open>1 \<le> b\<close>] by simp
  have "pm_sub h self other =
      (h @ [\<lparr>value = gcd a b\<rparr>, \<lparr>value = a div gcd a b\<rparr>], Inr (Suc (length h)))"
    using g unfolding a_def b_def by (rule pm_sub_eq)
  moreover have "(h @ [\<lparr>value = gcd a b\<rparr>, \<lparr>value = a div gcd a b\<rparr>]) ! Suc (length h) =
      \<lparr>value = a div gcd a b\<rparr>"
    by (simp add: nth_append)
  ultimately show ?thesis using m by simp
qed

theorem difference_saturating_witness:
  "(0::nat) < length [\<lparr>value = 2310\<rparr>, \<lparr>value = 273\<rparr>] \<and>
   (1::nat) < length [\<lparr>value = 2310\<rparr>, \<lparr>value = 273\<rparr>] \<and>
   (1::int) \<le> value ([\<lparr>value = 2310\<rparr>, \<lparr>value = 273\<rparr>] ! 0) \<and>
   (1::int) \<le> value ([\<lparr>value = 2310\<rparr>, \<lparr>value = 273\<rparr>] ! 1) \<and>
   is_prime 13 \<and>
   multiplicity 13 2310 = 0 \<and> multiplicity 13 273 = 1 \<and>
   pm_sub [\<lparr>value = 2310\<rparr>, \<lparr>value = 273\<rparr>] 0 1 =
     ([\<lparr>value = 2310\<rparr>, \<lparr>value = 273\<rparr>, \<lparr>value = 21\<rparr>, \<lparr>value = 110\<rparr>], Inr 3) \<and>
   int (multiplicity 13 110) = max 0 (int (multiplicity 13 2310) - int (multiplicity 13 273)) \<and>
   (2310::int) mod gcd 2310 273 = 0"
proof -
  let ?h = "[\<lparr>value = 2310\<rparr>, \<lparr>value = 273\<rparr>]"
  have g: "gcd (2310::int) 273 = 21" by code_simp
  have s: "pm_sub ?h 0 1 =
      ([\<lparr>value = 2310\<rparr>, \<lparr>value = 273\<rparr>, \<lparr>value = 21\<rparr>, \<lparr>value = 110\<rparr>], Inr 3)"
    by (simp add: pm_sub_eq g)
  have p: "is_prime 13" by code_simp
  have m1: "multiplicity 13 2310 = 0" by code_simp
  have m2: "multiplicity 13 273 = 1" by code_simp
  have h0: "(0::nat) < length ?h" and h1: "(1::nat) < length ?h" by simp_all
  have v0: "(1::int) \<le> value (?h ! 0)" and v1: "(1::int) \<le> value (?h ! 1)" by simp_all
  show ?thesis
    using difference_saturating [OF h0 h1 v0 v1] p m1 m2 s g by simp
qed

section \<open>Removing an element\<close>

text \<open>
  Claim C2. For a multiset \<open>m\<close> with value at least 1 and an element \<open>e\<close> at least 1,
  \<open>remove(e)\<close> raises the missing-element error \<open>KeyError(e)\<close> exactly when \<open>e\<close> does
  not divide \<open>m.value\<close>, and then no object has changed; when \<open>e\<close> divides
  \<open>m.value\<close>, \<open>remove(e)\<close> returns normally and \<open>m.value\<close> is the quotient.
\<close>

theorem remove_fails_iff_not_dvd:
  fixes h :: heap and self :: ref and e :: int
  defines "v \<equiv> value (h ! self)"
  assumes "self < length h" "1 \<le> v" "1 \<le> e"
  shows "((\<exists>err. snd (remove h self e) = Inl err) \<longleftrightarrow> \<not> e dvd v) \<and>
         (\<not> e dvd v \<longrightarrow> remove h self e = (h, Inl (KeyError e))) \<and>
         (e dvd v \<longrightarrow> remove h self e = (h[self := \<lparr>value = v div e\<rparr>], Inr ()) \<and>
            value (fst (remove h self e) ! self) = v div e)"
proof -
  have "e \<noteq> 0" using \<open>1 \<le> e\<close> by simp
  then show ?thesis
    using \<open>self < length h\<close> unfolding v_def by (simp add: remove_eq)
qed

theorem remove_fails_iff_not_dvd_witness:
  "(0::nat) < length [\<lparr>value = 6\<rparr>] \<and> (1::int) \<le> value ([\<lparr>value = 6\<rparr>] ! 0) \<and> (1::int) \<le> 5 \<and>
   \<not> (5::int) dvd 6 \<and>
   remove [\<lparr>value = 6\<rparr>] 0 5 = ([\<lparr>value = 6\<rparr>], Inl (KeyError 5))"
proof -
  have h0: "(0::nat) < length [\<lparr>value = 6\<rparr>]" by simp
  have v0: "(1::int) \<le> value ([\<lparr>value = 6\<rparr>] ! 0)" by simp
  have e: "(1::int) \<le> 5" by simp
  have nd: "\<not> (5::int) dvd 6" by presburger
  show ?thesis
    using remove_fails_iff_not_dvd [OF h0 v0 e] nd by simp
qed

section \<open>Discarding an element\<close>

text \<open>
  Claim C3, as amended. For every multiset \<open>m\<close> and every integer element \<open>e\<close> other
  than 0, \<open>discard(e)\<close> raises no error: when \<open>e\<close> divides \<open>m.value\<close> it sets
  \<open>m.value\<close> to the quotient, and otherwise it leaves every object as it was.
\<close>

theorem discard_never_raises:
  fixes h :: heap and self :: ref and e :: int
  defines "v \<equiv> value (h ! self)"
  assumes "self < length h" "e \<noteq> 0"
  shows "snd (discard h self e) = Inr () \<and>
         (e dvd v \<longrightarrow> fst (discard h self e) = h[self := \<lparr>value = v div e\<rparr>] \<and>
            value (fst (discard h self e) ! self) = v div e) \<and>
         (\<not> e dvd v \<longrightarrow> fst (discard h self e) = h)"
  using assms(2,3) unfolding v_def by (simp add: discard_eq)

theorem discard_never_raises_witness:
  "(0::nat) < length [\<lparr>value = 6\<rparr>] \<and> (5::int) \<noteq> 0 \<and> \<not> (5::int) dvd 6 \<and> (3::int) dvd 6 \<and>
   discard [\<lparr>value = 6\<rparr>] 0 5 = ([\<lparr>value = 6\<rparr>], Inr ()) \<and>
   discard [\<lparr>value = 6\<rparr>] 0 3 = ([\<lparr>value = 2\<rparr>], Inr ())"
proof -
  have h0: "(0::nat) < length [\<lparr>value = 6\<rparr>]" by simp
  have e5: "(5::int) \<noteq> 0" and e3: "(3::int) \<noteq> 0" by simp_all
  have nd: "\<not> (5::int) dvd 6" by presburger
  have d: "(3::int) dvd 6" by presburger
  have q: "(6::int) div 3 = 2" by simp
  have "discard [\<lparr>value = 6\<rparr>] 0 5 = ([\<lparr>value = 6\<rparr>], Inr ())"
    using discard_never_raises [OF h0 e5] nd by (simp add: prod_eq_iff)
  moreover have "discard [\<lparr>value = 6\<rparr>] 0 3 = ([\<lparr>value = 2\<rparr>], Inr ())"
    using discard_never_raises [OF h0 e3] d q by (simp add: prod_eq_iff)
  ultimately show ?thesis using nd d by simp
qed

text \<open>
  The claim as stated, for every integer element, fails at the element 0: \<open>divmod\<close>
  raises \<open>ZeroDivisionError\<close> before the remainder is looked at.
\<close>

theorem discard_zero_raises:
  "discard [\<lparr>value = 6\<rparr>] 0 0 = ([\<lparr>value = 6\<rparr>], Inl ZeroDivisionError)"
  by (simp add: discard_def py_divmod_def)

section \<open>Inclusion\<close>

text \<open>
  Claim C4. For multisets \<open>a\<close> and \<open>b\<close> with values at least 1: \<open>a <= b\<close> holds
  exactly when \<open>b.value % a.value == 0\<close> (the divisibility of \<open>b\<close> by \<open>a\<close>),
  \<open>a >= b\<close> exactly when \<open>a.value % b.value == 0\<close>, \<open>a < b\<close> exactly when
  \<open>a <= b\<close> and \<open>a != b\<close>, and \<open>a > b\<close> exactly when \<open>a >= b\<close> and \<open>a != b\<close>.
\<close>

theorem inclusion_is_divisibility:
  fixes h :: heap and self other :: ref
  defines "a \<equiv> value (h ! self)" and "b \<equiv> value (h ! other)"
  assumes "self < length h" "other < length h" "1 \<le> a" "1 \<le> b"
  shows "pm_le h self other = Inr (b mod a = 0) \<and>
         pm_ge h self other = Inr (a mod b = 0) \<and>
         pm_lt h self other = Inr (pm_le h self other = Inr True \<and> pm_ne h self other) \<and>
         pm_gt h self other = Inr (pm_ge h self other = Inr True \<and> pm_ne h self other) \<and>
         pm_ne h self other = (a \<noteq> b)"
proof -
  have "a \<noteq> 0" and "b \<noteq> 0" using \<open>1 \<le> a\<close> \<open>1 \<le> b\<close> by simp_all
  then show ?thesis
    unfolding a_def b_def
    by (simp add: pm_le_def pm_ge_def pm_lt_def pm_gt_def pm_ne_def py_mod_def)
qed

theorem inclusion_is_divisibility_witness:
  "(0::nat) < length [\<lparr>value = 6\<rparr>, \<lparr>value = 24\<rparr>] \<and>
   (1::nat) < length [\<lparr>value = 6\<rparr>, \<lparr>value = 24\<rparr>] \<and>
   (1::int) \<le> value ([\<lparr>value = 6\<rparr>, \<lparr>value = 24\<rparr>] ! 0) \<and>
   (1::int) \<le> value ([\<lparr>value = 6\<rparr>, \<lparr>value = 24\<rparr>] ! 1) \<and>
   pm_le [\<lparr>value = 6\<rparr>, \<lparr>value = 24\<rparr>] 0 1 = Inr True \<and>
   pm_ge [\<lparr>value = 6\<rparr>, \<lparr>value = 24\<rparr>] 0 1 = Inr False \<and>
   pm_lt [\<lparr>value = 6\<rparr>, \<lparr>value = 24\<rparr>] 0 1 = Inr True \<and>
   pm_gt [\<lparr>value = 6\<rparr>, \<lparr>value = 24\<rparr>] 0 1 = Inr False"
proof -
  let ?h = "[\<lparr>value = 6\<rparr>, \<lparr>value = 24\<rparr>]"
  have h0: "(0::nat) < length ?h" and h1: "(1::nat) < length ?h" by simp_all
  have v0: "(1::int) \<le> value (?h ! 0)" and v1: "(1::int) \<le> value (?h ! 1)" by simp_all
  show ?thesis
    using inclusion_is_divisibility [OF h0 h1 v0 v1] by simp
qed

section \<open>Intersection, union and sum\<close>

text \<open>
  Claim C5. For multisets \<open>a\<close> and \<open>b\<close> with values at least 1, the operators
  \<open>&\<close>, \<open>|\<close> and \<open>+\<close> return new instances (a reference that was not allocated
  before, every older object being left as it was) whose values are
  \<open>gcd(a.value, b.value)\<close> for the intersection,
  \<open>lcm(a.value, b.value) = a.value * b.value / gcd(a.value, b.value)\<close> for the union,
  and \<open>a.value * b.value\<close> for the sum.
\<close>

theorem set_algebra_values:
  fixes h :: heap and self other :: ref
  defines "a \<equiv> value (h ! self)" and "b \<equiv> value (h ! other)"
  assumes "self < length h" "other < length h" "1 \<le> a" "1 \<le> b"
  shows "pm_and h self other = (h @ [\<lparr>value = gcd a b\<rparr>], Inr (length h)) \<and>
         pm_or h self other = (h @ [\<lparr>value = lcm a b\<rparr>], Inr (length h)) \<and>
         lcm a b = a * b div gcd a b \<and>
         pm_add h self other = (h @ [\<lparr>value = a * b\<rparr>], Inr (length h)) \<and>
         length h \<noteq> self \<and> length h \<noteq> other"
proof -
  have g: "gcd a b \<noteq> 0" using \<open>1 \<le> a\<close> by (rule gcd_values_nonzero)
  have l: "a * b div gcd a b = lcm a b" using \<open>1 \<le> a\<close> \<open>1 \<le> b\<close> by (rule lcm_formula)
  have "pm_or h self other = (h @ [\<lparr>value = a * b div gcd a b\<rparr>], Inr (length h))"
    using g unfolding a_def b_def by (rule pm_or_eq)
  then have "pm_or h self other = (h @ [\<lparr>value = lcm a b\<rparr>], Inr (length h))"
    using l by simp
  moreover have "pm_and h self other = (h @ [\<lparr>value = gcd a b\<rparr>], Inr (length h))"
    unfolding a_def b_def by (rule pm_and_eq)
  moreover have "pm_add h self other = (h @ [\<lparr>value = a * b\<rparr>], Inr (length h))"
    unfolding a_def b_def by (rule pm_add_eq)
  ultimately show ?thesis
    using l \<open>self < length h\<close> \<open>other < length h\<close> by simp
qed

theorem set_algebra_values_witness:
  "(0::nat) < length [\<lparr>value = 8\<rparr>, \<lparr>value = 12\<rparr>] \<and>
   (1::nat) < length [\<lparr>value = 8\<rparr>, \<lparr>value = 12\<rparr>] \<and>
   (1::int) \<le> value ([\<lparr>value = 8\<rparr>, \<lparr>value = 12\<rparr>] ! 0) \<and>
   (1::int) \<le> value ([\<lparr>value = 8\<rparr>, \<lparr>value = 12\<rparr>] ! 1) \<and>
   pm_and [\<lparr>value = 8\<rparr>, \<lparr>value = 12\<rparr>] 0 1 =
     ([\<lparr>value = 8\<rparr>, \<lparr>value = 12\<rparr>, \<lparr>value = 4\<rparr>], Inr 2) \<and>
   pm_or [\<lparr>value = 8\<rparr>, \<lparr>value = 12\<rparr>] 0 1 =
     ([\<lparr>value = 8\<rparr>, \<lparr>value = 12\<rparr>, \<lparr>value = 24\<rparr>], Inr 2) \<and>
   pm_add [\<lparr>value = 8\<rparr>, \<lparr>value = 12\<rparr>] 0 1 =
     ([\<lparr>value = 8\<rparr>, \<lparr>value = 12\<rparr>, \<lparr>value = 96\<rparr>], Inr 2)"
proof -
  let ?h = "[\<lparr>value = 8\<rparr>, \<lparr>value = 12\<rparr>]"
  have h0: "(0::nat) < length ?h" and h1: "(1::nat) < length ?h" by simp_all
  have v0: "(1::int) \<le> value (?h ! 0)" and v1: "(1::int) \<le> value (?h ! 1)" by simp_all
  have g: "gcd (8::int) 12 = 4" by code_simp
  have l: "lcm (8::int) 12 = 24" by code_simp
  show ?thesis
    using set_algebra_values [OF h0 h1 v0 v1] g l by simp
qed

section \<open>Construction and emptiness\<close>

text \<open>
  Claim C6. The constructor, given a sequence and an initial value, yields the value
  \<open>initial_value * product(sequence)\<close>, the empty product being 1; a multiset
  constructed with no arguments has the value 1 and \<open>is_empty()\<close> is true for it; a
  multiset constructed from a non-empty list of integers above 1 (and a positive
  initial value) has \<open>is_empty()\<close> false; and \<open>is_empty()\<close> is true exactly when the
  value is 1.
\<close>

theorem construction_value:
  fixes h :: heap and s :: "int list" and i :: int
  shows "(case new h s i of
            (h', r) \<Rightarrow> value (h' ! r) = i * prod_list s \<and>
                       is_empty h' r = (value (h' ! r) = 1)) \<and>
         prod_list ([] :: int list) = 1 \<and>
         (case new h [] 1 of (h', r) \<Rightarrow> value (h' ! r) = 1 \<and> is_empty h' r) \<and>
         (s \<noteq> [] \<and> (\<forall>x \<in> set s. 1 < x) \<and> 1 \<le> i \<longrightarrow>
            (case new h s i of (h', r) \<Rightarrow> \<not> is_empty h' r))"
proof -
  have v: "value (fst (new h s i) ! snd (new h s i)) = i * prod_list s" for s i
    by (simp add: new_eq)
  have "i * prod_list s \<noteq> 1" if "s \<noteq> []" "\<forall>x \<in> set s. 1 < x" "1 \<le> i"
  proof -
    have "1 < prod_list s" using that(1,2) by (rule prod_list_gt_1)
    then have "1 * 1 < i * prod_list s"
      using that(3) by (intro mult_le_less_imp_less) simp_all
    then show ?thesis by simp
  qed
  then show ?thesis
    using v by (simp add: is_empty_def split_beta)
qed

theorem construction_value_witness:
  "[2, 3, 7] \<noteq> ([] :: int list) \<and> (1::int) < 2 \<and> (1::int) < 3 \<and> (1::int) < 7 \<and> (1::int) \<le> 1 \<and>
   new [] [2, 3, 7] 1 = ([\<lparr>value = 42\<rparr>], 0) \<and>
   \<not> is_empty (fst (new [] [2, 3, 7] 1)) (snd (new [] [2, 3, 7] 1)) \<and>
   new [] [] 1 = ([\<lparr>value = 1\<rparr>], 0) \<and>
   is_empty (fst (new [] [] 1)) (snd (new [] [] 1))"
proof -
  have n: "new [] [2, 3, 7] 1 = ([\<lparr>value = 42\<rparr>], 0)" by (simp add: new_def)
  have e: "new [] [] 1 = ([\<lparr>value = 1\<rparr>], 0)" by (simp add: new_def)
  show ?thesis
    using construction_value [where h = "[]" and s = "[2, 3, 7]" and i = 1] n e by (simp add: split_beta)
qed

section \<open>In-place operators\<close>

text \<open>
  Claim C7. For multisets \<open>a\<close> and \<open>b\<close> with values at least 1, each of the in-place
  operators \<open>&=\<close>, \<open>|=\<close>, \<open>+=\<close> and \<open>-=\<close> returns its left operand itself, which
  then holds exactly the value of the new instance that the operator \<open>&\<close>, \<open>|\<close>,
  \<open>+\<close> or \<open>-\<close> returns for the same operands; that new instance is not the left
  operand.
\<close>

theorem in_place_agrees_with_operator:
  fixes h :: heap and self other :: ref
  defines "a \<equiv> value (h ! self)" and "b \<equiv> value (h ! other)"
  assumes "self < length h" "other < length h" "1 \<le> a" "1 \<le> b"
  shows "(snd (pm_iand h self other) = Inr self \<and>
          returned_value (pm_iand h self other) = returned_value (pm_and h self other) \<and>
          returned_value (pm_and h self other) = Inr (gcd a b) \<and>
          snd (pm_and h self other) \<noteq> Inr self) \<and>
         (snd (pm_ior h self other) = Inr self \<and>
          returned_value (pm_ior h self other) = returned_value (pm_or h self other) \<and>
          returned_value (pm_or h self other) = Inr (lcm a b) \<and>
          snd (pm_or h self other) \<noteq> Inr self) \<and>
         (snd (pm_iadd h self other) = Inr self \<and>
          returned_value (pm_iadd h self other) = returned_value (pm_add h self other) \<and>
          returned_value (pm_add h self other) = Inr (a * b) \<and>
          snd (pm_add h self other) \<noteq> Inr self) \<and>
         (snd (pm_isub h self other) = Inr self \<and>
          returned_value (pm_isub h self other) = returned_value (pm_sub h self other) \<and>
          returned_value (pm_sub h self other) = Inr (a div gcd a b) \<and>
          snd (pm_sub h self other) \<noteq> Inr self)"
proof -
  have g: "gcd (value (h ! self)) (value (h ! other)) \<noteq> 0"
    using \<open>1 \<le> a\<close> unfolding a_def by (rule gcd_values_nonzero)
  have l: "a * b div gcd a b = lcm a b" using \<open>1 \<le> a\<close> \<open>1 \<le> b\<close> by (rule lcm_formula)
  have s: "self < length h" by fact
  have c_and: "snd (pm_iand h self other) = Inr self \<and>
      returned_value (pm_iand h self other) = returned_value (pm_and h self other) \<and>
      returned_value (pm_and h self other) = Inr (gcd a b) \<and>
      snd (pm_and h self other) \<noteq> Inr self"
    using s unfolding a_def b_def
    by (simp add: pm_iand_eq pm_and_eq returned_value_def)
  have c_or: "snd (pm_ior h self other) = Inr self \<and>
      returned_value (pm_ior h self other) = returned_value (pm_or h self other) \<and>
      returned_value (pm_or h self other) = Inr (lcm a b) \<and>
      snd (pm_or h self other) \<noteq> Inr self"
    using s l unfolding a_def b_def
    by (simp add: pm_ior_eq [OF g] pm_or_eq [OF g] returned_value_def)
  have c_add: "snd (pm_iadd h self other) = Inr self \<and>
      returned_value (pm_iadd h self other) = returned_value (pm_add h self other) \<and>
      returned_value (pm_add h self other) = Inr (a * b) \<and>
      snd (pm_add h self other) \<noteq> Inr self"
    using s unfolding a_def b_def
    by (simp add: pm_iadd_eq pm_add_eq returned_value_def)
  have c_sub: "snd (pm_isub h self other) = Inr self \<and>
      returned_value (pm_isub h self other) = returned_value (pm_sub h self other) \<and>
      returned_value (pm_sub h self other) = Inr (a div gcd a b) \<and>
      snd (pm_sub h self other) \<noteq> Inr self"
    using s unfolding a_def b_def
    by (simp add: pm_isub_eq [OF g] pm_sub_eq [OF g] returned_value_def nth_append)
  from c_and c_or c_add c_sub show ?thesis by blast
qed

theorem in_place_agrees_with_operator_witness:
  "(0::nat) < length [\<lparr>value = 8\<rparr>, \<lparr>value = 12\<rparr>] \<and>
   (1::nat) < length [\<lparr>value = 8\<rparr>, \<lparr>value = 12\<rparr>] \<and>
   (1::int) \<le> value ([\<lparr>value = 8\<rparr>, \<lparr>value = 12\<rparr>] ! 0) \<and>
   (1::int) \<le> value ([\<lparr>value = 8\<rparr>, \<lparr>value = 12\<rparr>] ! 1) \<and>
   pm_isub [\<lparr>value = 8\<rparr>, \<lparr>value = 12\<rparr>] 0 1 =
     ([\<lparr>value = 2\<rparr>, \<lparr>value = 12\<rparr>, \<lparr>value = 4\<rparr>], Inr 0) \<and>
   returned_value (pm_isub [\<lparr>value = 8\<rparr>, \<lparr>value = 12\<rparr>] 0 1) = Inr 2 \<and>
   returned_value (pm_sub [\<lparr>value = 8\<rparr>, \<lparr>value = 12\<rparr>] 0 1) = Inr 2 \<and>
   returned_value (pm_ior [\<lparr>value = 8\<rparr>, \<lparr>value = 12\<rparr>] 0 1) = Inr 24 \<and>
   returned_value (pm_iand [\<lparr>value = 8\<rparr>, \<lparr>value = 12\<rparr>] 0 1) = Inr 4 \<and>
   returned_value (pm_iadd [\<lparr>value = 8\<rparr>, \<lparr>value = 12\<rparr>] 0 1) = Inr 96"
proof -
  let ?h = "[\<lparr>value = 8\<rparr>, \<lparr>value = 12\<rparr>]"
  have h0: "(0::nat) < length ?h" and h1: "(1::nat) < length ?h" by simp_all
  have v0: "(1::int) \<le> value (?h ! 0)" and v1: "(1::int) \<le> value (?h ! 1)" by simp_all
  have g: "gcd (8::int) 12 = 4" by code_simp
  have l: "lcm (8::int) 12 = 24" by code_simp
  have i: "pm_isub ?h 0 1 = ([\<lparr>value = 2\<rparr>, \<lparr>value = 12\<rparr>, \<lparr>value = 4\<rparr>], Inr 0)"
    by (simp add: pm_isub_eq g)
  show ?thesis
    using in_place_agrees_with_operator [OF h0 h1 v0 v1] g l i by simp
qed

section \<open>Sum and difference\<close>

text \<open>
  Claim C8. For all lists \<open>a\<close> and \<open>b\<close> of positive integers,
  \<open>(P(a) + P(b)) - P(b) == P(a)\<close> is true: the evaluation raises nothing, and taking
  the difference with \<open>P(b)\<close> after summing with it gives back a multiset equal
  to \<open>P(a)\<close>.
\<close>

theorem sum_difference_inverse_holds:
  fixes h :: heap and a b :: "int list"
  assumes "\<forall>x \<in> set a. 1 \<le> x" "\<forall>x \<in> set b. 1 \<le> x"
  shows "sum_difference_inverse h a b = Inr True"
proof -
  define A where "A = prod_list a"
  define B where "B = prod_list b"
  define h2 where "h2 = h @ [\<lparr>value = A\<rparr>, \<lparr>value = B\<rparr>]"
  define h4 where "h4 = h2 @ [\<lparr>value = A * B\<rparr>, \<lparr>value = B\<rparr>]"
  define h6 where "h6 = h4 @ [\<lparr>value = B\<rparr>, \<lparr>value = A\<rparr>, \<lparr>value = A\<rparr>]"
  have B1: "1 \<le> B" unfolding B_def using assms(2) by (rule prod_list_ge_1)
  have q: "A * B div gcd (A * B) B = A" using B1 by (rule sum_then_difference)
  have g: "gcd (A * B) B \<noteq> 0" using B1 by simp
  have n1: "new h a 1 = (h @ [\<lparr>value = A\<rparr>], length h)"
    by (simp add: new_eq A_def)
  have n2: "new (h @ [\<lparr>value = A\<rparr>]) b 1 = (h2, Suc (length h))"
    by (simp add: new_eq B_def h2_def)
  have ad: "pm_add h2 (length h) (Suc (length h)) =
      (h2 @ [\<lparr>value = A * B\<rparr>], Inr (length h2))"
    by (simp add: pm_add_eq h2_def nth_append)
  have n3: "new (h2 @ [\<lparr>value = A * B\<rparr>]) b 1 = (h4, Suc (length h2))"
    by (simp add: new_eq B_def h4_def)
  have v_s: "value (h4 ! length h2) = A * B"
    by (simp add: h4_def nth_append)
  have v_b: "value (h4 ! Suc (length h2)) = B"
    by (simp add: h4_def nth_append)
  have sb: "pm_sub h4 (length h2) (Suc (length h2)) =
      (h4 @ [\<lparr>value = B\<rparr>, \<lparr>value = A\<rparr>], Inr (Suc (length h4)))"
  proof -
    have "gcd (value (h4 ! length h2)) (value (h4 ! Suc (length h2))) \<noteq> 0"
      unfolding v_s v_b by (rule g)
    then have "pm_sub h4 (length h2) (Suc (length h2)) =
        (h4 @ [\<lparr>value = gcd (value (h4 ! length h2)) (value (h4 ! Suc (length h2)))\<rparr>,
               \<lparr>value = value (h4 ! length h2)
                  div gcd (value (h4 ! length h2)) (value (h4 ! Suc (length h2)))\<rparr>],
         Inr (Suc (length h4)))"
      by (rule pm_sub_eq)
    moreover have "gcd (A * B) B = B" using B1 by simp
    ultimately show ?thesis using q by (simp only: v_s v_b)
  qed
  have n4: "new (h4 @ [\<lparr>value = B\<rparr>, \<lparr>value = A\<rparr>]) a 1 = (h6, Suc (Suc (length h4)))"
    by (simp add: new_eq A_def h6_def)
  have e: "pm_eq h6 (Suc (length h4)) (Suc (Suc (length h4)))"
    by (simp add: pm_eq_def h6_def nth_append)
  show ?thesis
    unfolding sum_difference_inverse_def
    by (simp add: n1 n2 ad n3 sb n4 e)
qed

theorem sum_difference_inverse_holds_witness:
  "(1::int) \<le> 2 \<and> (1::int) \<le> 3 \<and> (1::int) \<le> 5 \<and>
   sum_difference_inverse [] [2, 3] [3, 5] = Inr True"
proof -
  have a: "\<forall>x \<in> set [2, 3 :: int]. 1 \<le> x" by simp
  have b: "\<forall>x \<in> set [3, 5 :: int]. 1 \<le> x" by simp
  show ?thesis
    using sum_difference_inverse_holds [OF a b, of "[]"] by simp
qed

section \<open>Inclusion against union and intersection\<close>

text \<open>
  Claim C9. For multisets \<open>a\<close> and \<open>b\<close> with values at least 1, \<open>a <= (a | b)\<close>
  holds and \<open>(a & b) <= a\<close> holds.
\<close>

theorem inclusion_consistency:
  fixes h :: heap and self other :: ref
  assumes "self < length h" "other < length h"
    "1 \<le> value (h ! self)" "1 \<le> value (h ! other)"
  shows "(case pm_or h self other of
            (h', Inr u) \<Rightarrow> pm_le h' self u = Inr True
          | (h', Inl e) \<Rightarrow> False) \<and>
         (case pm_and h self other of
            (h', Inr i) \<Rightarrow> pm_le h' i self = Inr True
          | (h', Inl e) \<Rightarrow> False)"
proof -
  define a where "a = value (h ! self)"
  define b where "b = value (h ! other)"
  have a1: "1 \<le> a" and b1: "1 \<le> b" using assms(3,4) by (simp_all add: a_def b_def)
  have g: "gcd a b \<noteq> 0" using a1 by (rule gcd_values_nonzero)
  have l: "a * b div gcd a b = lcm a b" using a1 b1 by (rule lcm_formula)
  have a0: "a \<noteq> 0" using a1 by simp
  have o: "pm_or h self other = (h @ [\<lparr>value = lcm a b\<rparr>], Inr (length h))"
    using pm_or_eq [of h self other] g l by (simp add: a_def b_def)
  have n: "pm_and h self other = (h @ [\<lparr>value = gcd a b\<rparr>], Inr (length h))"
    by (simp add: pm_and_eq a_def b_def)
  have le_or: "pm_le (h @ [\<lparr>value = lcm a b\<rparr>]) self (length h) = Inr True"
    using assms(1) a0 by (simp add: pm_le_def py_mod_def nth_append a_def [symmetric])
  have le_and: "pm_le (h @ [\<lparr>value = gcd a b\<rparr>]) (length h) self = Inr True"
    using assms(1) g by (simp add: pm_le_def py_mod_def nth_append a_def [symmetric])
  show ?thesis
    by (simp add: o n le_or le_and)
qed

theorem inclusion_consistency_witness:
  "(0::nat) < length [\<lparr>value = 8\<rparr>, \<lparr>value = 12\<rparr>] \<and>
   (1::nat) < length [\<lparr>value = 8\<rparr>, \<lparr>value = 12\<rparr>] \<and>
   (1::int) \<le> value ([\<lparr>value = 8\<rparr>, \<lparr>value = 12\<rparr>] ! 0) \<and>
   (1::int) \<le> value ([\<lparr>value = 8\<rparr>, \<lparr>value = 12\<rparr>] ! 1) \<and>
   pm_le [\<lparr>value = 8\<rparr>, \<lparr>value = 12\<rparr>, \<lparr>value = 24\<rparr>] 0 2 = Inr True \<and>
   pm_le [\<lparr>value = 8\<rparr>, \<lparr>value = 12\<rparr>, \<lparr>value = 4\<rparr>] 2 0 = Inr True"
proof -
  let ?h = "[\<lparr>value = 8\<rparr>, \<lparr>value = 12\<rparr>]"
  have h0: "(0::nat) < length ?h" and h1: "(1::nat) < length ?h" by simp_all
  have v0: "(1::int) \<le> value (?h ! 0)" and v1: "(1::int) \<le> value (?h ! 1)" by simp_all
  have g: "gcd (8::int) 12 = 4" by code_simp
  have o: "pm_or ?h 0 1 = ([\<lparr>value = 8\<rparr>, \<lparr>value = 12\<rparr>, \<lparr>value = 24\<rparr>], Inr 2)"
    by (simp add: pm_or_eq g)
  have n: "pm_and ?h 0 1 = ([\<lparr>value = 8\<rparr>, \<lparr>value = 12\<rparr>, \<lparr>value = 4\<rparr>], Inr 2)"
    by (simp add: pm_and_eq g)
  show ?thesis
    using inclusion_consistency [OF h0 h1 v0 v1] o n by simp
qed

section \<open>The invariant of the data model\<close>

lemma invariant_append:
  "invariant (h @ [m]) \<longleftrightarrow> invariant h \<and> 1 \<le> value m"
  by (auto simp: invariant_def)

lemma invariant_update:
  assumes "invariant h" "1 \<le> v"
  shows "invariant (h[i := \<lparr>value = v\<rparr>])"
proof -
  have "set (h[i := \<lparr>value = v\<rparr>]) \<subseteq> insert \<lparr>value = v\<rparr> (set h)"
    by (rule set_update_subset_insert)
  then show ?thesis using assms by (auto simp: invariant_def)
qed

lemma invariant_nth:
  assumes "invariant h" "i < length h"
  shows "1 \<le> value (h ! i)"
  using assms by (simp add: invariant_def)

text \<open>
  Claim C10. Every operation preserves the invariant \<open>value >= 1\<close>: started on
  instances whose values are at least 1, with an element argument at least 1, each of
  the operators \<open>&\<close>, \<open>|\<close>, \<open>+\<close>, \<open>-\<close>, their in-place variants, and the methods
  \<open>add\<close>, \<open>remove\<close>, \<open>discard\<close> and \<open>clear\<close> leaves every object, the operands
  and the objects it created, with a value of at least 1.
\<close>

theorem operations_preserve_invariant:
  fixes h :: heap and self other :: ref and e :: int
  assumes "invariant h" "self < length h" "other < length h" "1 \<le> e"
  shows "invariant (fst (pm_and h self other)) \<and>
         invariant (fst (pm_iand h self other)) \<and>
         invariant (fst (pm_or h self other)) \<and>
         invariant (fst (pm_ior h self other)) \<and>
         invariant (fst (pm_add h self other)) \<and>
         invariant (fst (pm_iadd h self other)) \<and>
         invariant (fst (pm_sub h self other)) \<and>
         invariant (fst (pm_isub h self other)) \<and>
         invariant (fst (add h self e)) \<and>
         invariant (fst (remove h self e)) \<and>
         invariant (fst (discard h self e)) \<and>
         invariant (fst (clear h self))"
proof -
  define a where "a = value (h ! self)"
  define b where "b = value (h ! other)"
  have a1: "1 \<le> a" unfolding a_def using assms(1,2) by (rule invariant_nth)
  have b1: "1 \<le> b" unfolding b_def using assms(1,3) by (rule invariant_nth)
  have g0: "gcd (value (h ! self)) (value (h ! other)) \<noteq> 0"
    using a1 unfolding a_def by (rule gcd_values_nonzero)
  have g1: "1 \<le> gcd a b" using a1 by (rule gcd_ge_1)
  have q1: "1 \<le> a div gcd a b" using a1 by (rule div_gcd_ge_1)
  have l1: "1 \<le> a * b div gcd a b"
    using lcm_ge_1 [OF a1 b1] lcm_formula [OF a1 b1] by simp
  have p1: "1 \<le> a * b" using a1 b1 by (rule mult_ge_1)
  have e0: "e \<noteq> 0" using assms(4) by simp
  have ae: "1 \<le> a * e" using a1 assms(4) by (rule mult_ge_1)
  have hg: "invariant (h @ [\<lparr>value = gcd a b\<rparr>])"
    using assms(1) g1 by (simp add: invariant_append)
  have c_and: "invariant (fst (pm_and h self other))"
    using hg by (simp add: pm_and_eq a_def b_def)
  have c_iand: "invariant (fst (pm_iand h self other))"
    using invariant_update [OF assms(1) g1] by (simp add: pm_iand_eq a_def b_def)
  have c_or: "invariant (fst (pm_or h self other))"
    using assms(1) l1 by (simp add: pm_or_eq [OF g0] invariant_append a_def b_def)
  have c_ior: "invariant (fst (pm_ior h self other))"
    using invariant_update [OF assms(1) l1] by (simp add: pm_ior_eq [OF g0] a_def b_def)
  have c_add: "invariant (fst (pm_add h self other))"
    using assms(1) p1 by (simp add: pm_add_eq invariant_append a_def b_def)
  have c_iadd: "invariant (fst (pm_iadd h self other))"
    using invariant_update [OF assms(1) p1] by (simp add: pm_iadd_eq a_def b_def)
  have c_sub: "invariant (fst (pm_sub h self other))"
  proof -
    have "invariant ((h @ [\<lparr>value = gcd a b\<rparr>]) @ [\<lparr>value = a div gcd a b\<rparr>])"
      using hg q1 by (simp only: invariant_append PrimeMultiset.simps simp_thms)
    then show ?thesis by (simp add: pm_sub_eq [OF g0] a_def b_def)
  qed
  have c_isub: "invariant (fst (pm_isub h self other))"
    using invariant_update [OF hg q1] by (simp add: pm_isub_eq [OF g0] a_def b_def)
  have c_addm: "invariant (fst (add h self e))"
    using invariant_update [OF assms(1) ae]
    by (simp add: add_def value_update_eq a_def)
  have c_remove: "invariant (fst (remove h self e))"
  proof (cases "e dvd a")
    case True
    have "1 \<le> a div e" using assms(4) a1 True by (rule exact_quotient_ge_1)
    then have "invariant (h[self := \<lparr>value = a div e\<rparr>])"
      using assms(1) by (intro invariant_update)
    then show ?thesis using True by (simp add: remove_eq [OF e0] a_def)
  next
    case False
    then show ?thesis using assms(1) by (simp add: remove_eq [OF e0] a_def)
  qed
  have c_discard: "invariant (fst (discard h self e))"
  proof (cases "e dvd a")
    case True
    have "1 \<le> a div e" using assms(4) a1 True by (rule exact_quotient_ge_1)
    then have "invariant (h[self := \<lparr>value = a div e\<rparr>])"
      using assms(1) by (intro invariant_update)
    then show ?thesis using True by (simp add: discard_eq [OF e0] a_def)
  next
    case False
    then show ?thesis using assms(1) by (simp add: discard_eq [OF e0] a_def)
  qed
  have c_clear: "invariant (fst (clear h self))"
    using invariant_update [OF assms(1), of 1 self]
    by (simp add: clear_def value_update_eq)
  from c_and c_iand c_or c_ior c_add c_iadd c_sub c_isub c_addm c_remove c_discard c_clear
  show ?thesis by blast
qed

theorem operations_preserve_invariant_witness:
  "invariant [\<lparr>value = 8\<rparr>, \<lparr>value = 12\<rparr>] \<and>
   (0::nat) < length [\<lparr>value = 8\<rparr>, \<lparr>value = 12\<rparr>] \<and>
   (1::nat) < length [\<lparr>value = 8\<rparr>, \<lparr>value = 12\<rparr>] \<and>
   (1::int) \<le> 2 \<and>
   fst (remove [\<lparr>value = 8\<rparr>, \<lparr>value = 12\<rparr>] 0 2) = [\<lparr>value = 4\<rparr>, \<lparr>value = 12\<rparr>] \<and>
   invariant (fst (remove [\<lparr>value = 8\<rparr>, \<lparr>value = 12\<rparr>] 0 2)) \<and>
   fst (pm_isub [\<lparr>value = 8\<rparr>, \<lparr>value = 12\<rparr>] 0 1) =
     [\<lparr>value = 2\<rparr>, \<lparr>value = 12\<rparr>, \<lparr>value = 4\<rparr>] \<and>
   invariant (fst (pm_isub [\<lparr>value = 8\<rparr>, \<lparr>value = 12\<rparr>] 0 1)) \<and>
   invariant (fst (pm_sub [\<lparr>value = 8\<rparr>, \<lparr>value = 12\<rparr>] 0 1)) \<and>
   invariant (fst (pm_or [\<lparr>value = 8\<rparr>, \<lparr>value = 12\<rparr>] 0 1)) \<and>
   invariant (fst (discard [\<lparr>value = 8\<rparr>, \<lparr>value = 12\<rparr>] 0 2)) \<and>
   invariant (fst (clear [\<lparr>value = 8\<rparr>, \<lparr>value = 12\<rparr>] 0))"
proof -
  let ?h = "[\<lparr>value = 8\<rparr>, \<lparr>value = 12\<rparr>]"
  have i: "invariant ?h" by (simp add: invariant_def)
  have h0: "(0::nat) < length ?h" and h1: "(1::nat) < length ?h" by simp_all
  have e: "(1::int) \<le> 2" by simp
  have g: "gcd (8::int) 12 = 4" by code_simp
  have r: "fst (remove ?h 0 2) = [\<lparr>value = 4\<rparr>, \<lparr>value = 12\<rparr>]"
    by (simp add: remove_eq)
  have s: "fst (pm_isub ?h 0 1) = [\<lparr>value = 2\<rparr>, \<lparr>value = 12\<rparr>, \<lparr>value = 4\<rparr>]"
    by (simp add: pm_isub_eq g)
  have c: "invariant (fst (remove ?h 0 2)) \<and> invariant (fst (pm_isub ?h 0 1)) \<and>
      invariant (fst (pm_sub ?h 0 1)) \<and> invariant (fst (pm_or ?h 0 1)) \<and>
      invariant (fst (discard ?h 0 2)) \<and> invariant (fst (clear ?h 0))"
    using operations_preserve_invariant [OF i h0 h1 e] by blast
  show ?thesis
    using c r s i by simp
qed

end
